theory Spec2Isabelle
  imports Main "HOL-Library.Word"
begin

section \<open>Data model of drivers/base/power/wakeup.c\<close>

text \<open>
  The target of this kernel tree is 32-bit ARM: \<open>unsigned long\<close> and \<open>unsigned int\<close>
  are 32-bit words, \<open>atomic_t\<close> wraps an \<open>int\<close> (read as a signed value with
  \<open>sint\<close>), and \<open>ktime_t\<close> is a signed 64-bit nanosecond count.
\<close>

type_synonym ulong = "32 word"
type_synonym uint = "32 word"
type_synonym atomic_t = "32 word"
type_synonym ktime_t = "64 word"

text \<open>
  Modelled from the spec: \<open>struct wakeup_source\<close> is declared in a header that is not
  among the sources; the fields are the ones wakeup.c reads and writes and section 3 of the
  specification lists. The embedded \<open>timer\<close> is kept as its pending deadline
  (\<open>None\<close>: not pending); the per-object lock carries no data.
\<close>

record wakeup_source =
  name :: "string option"
  timer :: "ulong option"
  timer_expires :: ulong
  total_time :: ktime_t
  max_time :: ktime_t
  last_time :: ktime_t
  ws_event_count :: ulong
  active_count :: ulong
  relax_count :: ulong
  hit_count :: ulong
  active :: bool

text \<open>
  The state: the objects in memory (\<open>objs s p\<close> is the object at address \<open>p\<close>), the
  list \<open>wakeup_sources\<close> of registered addresses (head first), and the four file-scope
  variables. A \<open>struct wakeup_source *\<close> is a \<open>nat option\<close>, \<open>None\<close> being \<open>NULL\<close>.
\<close>

record pm_state =
  objs :: "nat \<Rightarrow> wakeup_source"
  wakeup_sources :: "nat list"
  events_check_enabled :: bool
  event_count :: atomic_t
  saved_count :: uint
  events_in_progress :: atomic_t

text \<open>An object as \<open>kzalloc\<close> returns it: every field zero.\<close>

definition ws_zero :: wakeup_source where
  "ws_zero = \<lparr> name = None, timer = None, timer_expires = 0, total_time = 0, max_time = 0,
     last_time = 0, ws_event_count = 0, active_count = 0, relax_count = 0, hit_count = 0,
     active = False \<rparr>"

text \<open>The state at boot: zeroed memory, empty list, \<open>ATOMIC_INIT(0)\<close> and zeroed statics.\<close>

definition pm_init :: pm_state where
  "pm_init = \<lparr> objs = (\<lambda>_. ws_zero), wakeup_sources = [], events_check_enabled = False,
     event_count = 0, saved_count = 0, events_in_progress = 0 \<rparr>"

definition upd_ws :: "nat \<Rightarrow> (wakeup_source \<Rightarrow> wakeup_source) \<Rightarrow> pm_state \<Rightarrow> pm_state" where
  "upd_ws ws f s = s\<lparr> objs := (objs s)(ws := f (objs s ws)) \<rparr>"

subsection \<open>Time helpers\<close>

text \<open>
  Modelled from the spec: the \<open>ktime\<close> helpers and \<open>time_after\<close> are kernel macros
  outside the sources. Durations are differences of timestamps, compared as signed
  nanosecond counts; \<open>time_after a b\<close> is the wrap-safe test
  \<open>(long)b - (long)a < 0\<close> on jiffies.
\<close>

definition ktime_sub :: "ktime_t \<Rightarrow> ktime_t \<Rightarrow> ktime_t" where
  "ktime_sub a b = a - b"

definition ktime_add :: "ktime_t \<Rightarrow> ktime_t \<Rightarrow> ktime_t" where
  "ktime_add a b = a + b"

definition ktime_to_ns :: "ktime_t \<Rightarrow> int" where
  "ktime_to_ns k = sint k"

definition time_after :: "ulong \<Rightarrow> ulong \<Rightarrow> bool" where
  "time_after a b = (sint (b - a) < 0)"

section \<open>Registry\<close>

text \<open>
  \<open>wakeup_source_create\<close>: \<open>p\<close> is what \<open>kzalloc\<close> returned (\<open>None\<close> on failure);
  the result is the state and the returned pointer.
\<close>

definition wakeup_source_create ::
  "nat option \<Rightarrow> string option \<Rightarrow> pm_state \<Rightarrow> pm_state \<times> nat option" where
  "wakeup_source_create p nm s =
     (case p of
        None \<Rightarrow> (s, None)
      | Some ws \<Rightarrow> (s\<lparr> objs := (objs s)(ws := ws_zero\<lparr> name := nm \<rparr>) \<rparr>, Some ws))"

definition wakeup_source_add :: "nat option \<Rightarrow> pm_state \<Rightarrow> pm_state" where
  "wakeup_source_add p s =
     (case p of
        None \<Rightarrow> s
      | Some ws \<Rightarrow>
          (let s1 = upd_ws ws (\<lambda>w. w\<lparr> timer := None \<rparr>) s;
               s2 = upd_ws ws (\<lambda>w. w\<lparr> active := False \<rparr>) s1
           in s2\<lparr> wakeup_sources := ws # wakeup_sources s2 \<rparr>))"

definition wakeup_source_remove :: "nat option \<Rightarrow> pm_state \<Rightarrow> pm_state" where
  "wakeup_source_remove p s =
     (case p of
        None \<Rightarrow> s
      | Some ws \<Rightarrow> s\<lparr> wakeup_sources := remove1 ws (wakeup_sources s) \<rparr>)"

section \<open>Event entry points\<close>

definition wakeup_source_activate :: "nat \<Rightarrow> ulong \<Rightarrow> ktime_t \<Rightarrow> pm_state \<Rightarrow> pm_state" where
  "wakeup_source_activate ws jiffies now s =
     (let s1 = upd_ws ws (\<lambda>w. w\<lparr> active := True \<rparr>) s;
          s2 = upd_ws ws (\<lambda>w. w\<lparr> active_count := active_count w + 1 \<rparr>) s1;
          s3 = upd_ws ws (\<lambda>w. w\<lparr> timer_expires := jiffies \<rparr>) s2;
          s4 = upd_ws ws (\<lambda>w. w\<lparr> last_time := now \<rparr>) s3
      in s4\<lparr> events_in_progress := events_in_progress s4 + 1 \<rparr>)"

text \<open>
  \<open>__pm_stay_awake\<close> (a name cannot start with an underscore here, so the three entry
  points on a wakeup source are \<open>ws_pm_stay_awake\<close>, \<open>ws_pm_relax\<close> and
  \<open>ws_pm_wakeup_event\<close>); \<open>jiffies\<close> and \<open>now\<close> are what the clock reads give.
\<close>

definition ws_pm_stay_awake :: "nat option \<Rightarrow> ulong \<Rightarrow> ktime_t \<Rightarrow> pm_state \<Rightarrow> pm_state" where
  "ws_pm_stay_awake p jiffies now s =
     (case p of
        None \<Rightarrow> s
      | Some ws \<Rightarrow>
          (let s1 = upd_ws ws (\<lambda>w. w\<lparr> ws_event_count := ws_event_count w + 1 \<rparr>) s
           in if \<not> active (objs s1 ws) then wakeup_source_activate ws jiffies now s1 else s1))"

definition wakeup_source_deactivate :: "nat \<Rightarrow> ktime_t \<Rightarrow> pm_state \<Rightarrow> pm_state" where
  "wakeup_source_deactivate ws now s =
     (let s1 = upd_ws ws (\<lambda>w. w\<lparr> relax_count := relax_count w + 1 \<rparr>) s
      in if relax_count (objs s1 ws) \<noteq> active_count (objs s1 ws)
         then upd_ws ws (\<lambda>w. w\<lparr> relax_count := relax_count w - 1 \<rparr>) s1
         else
           (let s2 = upd_ws ws (\<lambda>w. w\<lparr> active := False \<rparr>) s1;
                duration = ktime_sub now (last_time (objs s2 ws));
                s3 = upd_ws ws (\<lambda>w. w\<lparr> total_time := ktime_add (total_time w) duration \<rparr>) s2;
                s4 = (if ktime_to_ns duration > ktime_to_ns (max_time (objs s3 ws))
                      then upd_ws ws (\<lambda>w. w\<lparr> max_time := duration \<rparr>) s3 else s3);
                s5 = upd_ws ws (\<lambda>w. w\<lparr> timer := None \<rparr>) s4;
                s6 = s5\<lparr> event_count := event_count s5 + 1 \<rparr>
            in s6\<lparr> events_in_progress := events_in_progress s6 - 1 \<rparr>))"

text \<open>\<open>__pm_relax\<close>.\<close>

definition ws_pm_relax :: "nat option \<Rightarrow> ktime_t \<Rightarrow> pm_state \<Rightarrow> pm_state" where
  "ws_pm_relax p now s =
     (case p of
        None \<Rightarrow> s
      | Some ws \<Rightarrow> if active (objs s ws) then wakeup_source_deactivate ws now s else s)"

definition pm_wakeup_timer_fn :: "nat \<Rightarrow> ktime_t \<Rightarrow> pm_state \<Rightarrow> pm_state" where
  "pm_wakeup_timer_fn data now s = ws_pm_relax (Some data) now s"

text \<open>
  \<open>__pm_wakeup_event\<close>. \<open>msecs_to_jiffies\<close> is a kernel function outside the sources
  and is a parameter. The body reads the clocks up to twice: \<open>jiffies0\<close> and \<open>now0\<close> in
  the activation, then \<open>now1\<close> in the deactivation (zero timeout) or \<open>jiffies1\<close> for the
  deadline.
\<close>

definition ws_pm_wakeup_event ::
  "(uint \<Rightarrow> ulong) \<Rightarrow> nat option \<Rightarrow> uint \<Rightarrow> ulong \<Rightarrow> ktime_t \<Rightarrow> ulong \<Rightarrow> ktime_t
     \<Rightarrow> pm_state \<Rightarrow> pm_state" where
  "ws_pm_wakeup_event msecs_to_jiffies p msec jiffies0 now0 jiffies1 now1 s =
     (case p of
        None \<Rightarrow> s
      | Some ws \<Rightarrow>
          (let s1 = upd_ws ws (\<lambda>w. w\<lparr> ws_event_count := ws_event_count w + 1 \<rparr>) s;
               s2 = (if \<not> active (objs s1 ws)
                     then wakeup_source_activate ws jiffies0 now0 s1 else s1)
           in if msec = 0 then wakeup_source_deactivate ws now1 s2
              else
                (let expires0 = jiffies1 + msecs_to_jiffies msec;
                     expires = (if expires0 = 0 then 1 else expires0)
                 in if time_after expires (timer_expires (objs s2 ws))
                    then upd_ws ws (\<lambda>w. w\<lparr> timer_expires := expires \<rparr>)
                           (upd_ws ws (\<lambda>w. w\<lparr> timer := Some expires \<rparr>) s2)
                    else s2)))"

section \<open>Quiescence protocol\<close>

text \<open>The body of the loop of \<open>pm_wakeup_update_hit_counts\<close>, over the rest of the list.\<close>

fun hit_loop :: "nat list \<Rightarrow> pm_state \<Rightarrow> pm_state" where
  "hit_loop [] s = s"
| "hit_loop (ws # rest) s =
     hit_loop rest
       (if active (objs s ws) then upd_ws ws (\<lambda>w. w\<lparr> hit_count := hit_count w + 1 \<rparr>) s
        else s)"

definition pm_wakeup_update_hit_counts :: "pm_state \<Rightarrow> pm_state" where
  "pm_wakeup_update_hit_counts s = hit_loop (wakeup_sources s) s"

definition pm_check_wakeup_events :: "pm_state \<Rightarrow> bool \<times> pm_state" where
  "pm_check_wakeup_events s =
     (let (ret, s1) =
            (if events_check_enabled s
             then (let r = (event_count s = saved_count s \<and> events_in_progress s = 0)
                   in (r, s\<lparr> events_check_enabled := r \<rparr>))
             else (True, s))
      in (ret, if \<not> ret then pm_wakeup_update_hit_counts s1 else s1))"

definition pm_save_wakeup_count :: "uint \<Rightarrow> pm_state \<Rightarrow> bool \<times> pm_state" where
  "pm_save_wakeup_count count s =
     (let (ret, s1) =
            (if count = event_count s \<and> events_in_progress s = 0
             then (True, s\<lparr> saved_count := count, events_check_enabled := True \<rparr>)
             else (False, s))
      in (ret, if \<not> ret then pm_wakeup_update_hit_counts s1 else s1))"

subsection \<open>What other contexts do while \<open>pm_get_wakeup_count\<close> sleeps\<close>

datatype ws_event =
    StayAwake nat ulong ktime_t
  | Relax nat ktime_t
  | WakeupEvent nat uint ulong ktime_t ulong ktime_t
  | TimerFired nat ktime_t

text \<open>
  One operation of another context, atomic under the object's lock. An expiring timer
  is no longer pending when its function runs.
\<close>

fun exec_event :: "(uint \<Rightarrow> ulong) \<Rightarrow> ws_event \<Rightarrow> pm_state \<Rightarrow> pm_state" where
  "exec_event m2j (StayAwake ws j t) s = ws_pm_stay_awake (Some ws) j t s"
| "exec_event m2j (Relax ws t) s = ws_pm_relax (Some ws) t s"
| "exec_event m2j (WakeupEvent ws msec j0 t0 j1 t1) s =
     ws_pm_wakeup_event m2j (Some ws) msec j0 t0 j1 t1 s"
| "exec_event m2j (TimerFired ws t) s =
     pm_wakeup_timer_fn ws t (upd_ws ws (\<lambda>w. w\<lparr> timer := None \<rparr>) s)"

fun run_events :: "(uint \<Rightarrow> ulong) \<Rightarrow> ws_event list \<Rightarrow> pm_state \<Rightarrow> pm_state" where
  "run_events m2j [] s = s"
| "run_events m2j (e # es) s = run_events m2j es (exec_event m2j e s)"

fun event_source :: "ws_event \<Rightarrow> nat" where
  "event_source (StayAwake ws j t) = ws"
| "event_source (Relax ws t) = ws"
| "event_source (WakeupEvent ws msec j0 t0 j1 t1) = ws"
| "event_source (TimerFired ws t) = ws"

text \<open>
  The wait loop of \<open>pm_get_wakeup_count\<close>. \<open>sig\<close> is \<open>signal_pending(current)\<close> at the
  test; each element of the trace is one sleep: what the other contexts did meanwhile and
  whether a signal is pending afterwards. \<open>None\<close>: the trace ended with the loop still
  waiting. The result carries the signal flag at the exit.
\<close>

fun get_wait ::
  "(uint \<Rightarrow> ulong) \<Rightarrow> (ws_event list \<times> bool) list \<Rightarrow> bool \<Rightarrow> pm_state
     \<Rightarrow> (bool \<times> pm_state) option" where
  "get_wait m2j [] sig s =
     (if events_in_progress s \<noteq> 0 \<and> \<not> sig then None else Some (sig, s))"
| "get_wait m2j ((evs, sig') # tr) sig s =
     (if events_in_progress s \<noteq> 0 \<and> \<not> sig
      then get_wait m2j tr sig' (run_events m2j evs (pm_wakeup_update_hit_counts s))
      else Some (sig, s))"

text \<open>The result is the returned flag, the value stored at \<open>count\<close>, and the state.\<close>

definition pm_get_wakeup_count ::
  "(uint \<Rightarrow> ulong) \<Rightarrow> bool \<Rightarrow> bool \<Rightarrow> (ws_event list \<times> bool) list \<Rightarrow> pm_state
     \<Rightarrow> (bool \<times> uint \<times> pm_state) option" where
  "pm_get_wakeup_count m2j capable sig tr s =
     (let s0 = (if capable then s\<lparr> events_check_enabled := False \<rparr> else s)
      in case get_wait m2j tr sig s0 of
           None \<Rightarrow> None
         | Some (sg, s1) \<Rightarrow> Some (events_in_progress s1 = 0, event_count s1, s1))"

text \<open>
  The course of the wait over the sleeps of a trace: the state after them, the signal
  flag after them, and whether the loop condition held at the test before each of them.
\<close>

fun sleep_state :: "(uint \<Rightarrow> ulong) \<Rightarrow> (ws_event list \<times> bool) list \<Rightarrow> pm_state \<Rightarrow> pm_state" where
  "sleep_state m2j [] s = s"
| "sleep_state m2j ((evs, sig') # tr) s =
     sleep_state m2j tr (run_events m2j evs (pm_wakeup_update_hit_counts s))"

fun sleep_sig :: "(ws_event list \<times> bool) list \<Rightarrow> bool \<Rightarrow> bool" where
  "sleep_sig [] sig = sig"
| "sleep_sig ((evs, sig') # tr) sig = sleep_sig tr sig'"

fun keeps_waiting ::
  "(uint \<Rightarrow> ulong) \<Rightarrow> (ws_event list \<times> bool) list \<Rightarrow> bool \<Rightarrow> pm_state \<Rightarrow> bool" where
  "keeps_waiting m2j [] sig s = True"
| "keeps_waiting m2j ((evs, sig') # tr) sig s =
     (events_in_progress s \<noteq> 0 \<and> \<not> sig
      \<and> keeps_waiting m2j tr sig' (run_events m2j evs (pm_wakeup_update_hit_counts s)))"

section \<open>Notions used by the properties\<close>

text \<open>The deadline \<open>expires\<close> that \<open>__pm_wakeup_event\<close> computes from the tick it reads.\<close>

definition expires_of :: "(uint \<Rightarrow> ulong) \<Rightarrow> uint \<Rightarrow> ulong \<Rightarrow> ulong" where
  "expires_of msecs_to_jiffies msec jiffies =
     (if jiffies + msecs_to_jiffies msec = 0 then 1 else jiffies + msecs_to_jiffies msec)"

text \<open>
  One instance of the \<open>msecs_to_jiffies\<close> parameter, for concrete runs: the kernel's
  conversion at \<open>HZ = 100\<close>, which rounds up to ticks of 10 ms and maps a value with the
  sign bit set to \<open>MAX_JIFFY_OFFSET\<close>.
\<close>

definition msecs_to_jiffies_100 :: "uint \<Rightarrow> ulong" where
  "msecs_to_jiffies_100 m = (if sint m < 0 then 0x3FFFFFFE else (m + 9) div 10)"

text \<open>The counters of an object agree with its \<open>active\<close> flag.\<close>

definition ws_consistent :: "wakeup_source \<Rightarrow> bool" where
  "ws_consistent w = (active_count w = relax_count w + (if active w then 1 else 0))"

definition active_set :: "pm_state \<Rightarrow> nat set" where
  "active_set s = {p. active (objs s p)}"

text \<open>
  The invariant of the counters: every object is consistent, and \<open>events_in_progress\<close>
  counts the objects with an open window.
\<close>

definition pm_inv :: "pm_state \<Rightarrow> bool" where
  "pm_inv s = ((\<forall>p. ws_consistent (objs s p)) \<and> finite (active_set s)
     \<and> events_in_progress s = of_nat (card (active_set s)))"

text \<open>
  A source that is created, added, woken, removed while its window is open and then
  added again: the second \<open>wakeup_source_add\<close> clears \<open>active\<close> and leaves the counters.
\<close>

definition readded_source :: pm_state where
  "readded_source =
     wakeup_source_add (Some 0)
       (wakeup_source_remove (Some 0)
         (ws_pm_stay_awake (Some 0) 0 0
           (wakeup_source_add (Some 0)
             (fst (wakeup_source_create (Some 0) None pm_init)))))"

text \<open>
  A fresh source after \<open>__pm_wakeup_event(ws, 100)\<close> at tick 0, and after a following
  \<open>__pm_wakeup_event(ws, 50)\<close> at tick 8, at \<open>HZ = 100\<close>.
\<close>

definition after_100 :: pm_state where
  "after_100 = ws_pm_wakeup_event msecs_to_jiffies_100 (Some 0) 100 0 0 0 0 pm_init"

definition after_100_50 :: pm_state where
  "after_100_50 = ws_pm_wakeup_event msecs_to_jiffies_100 (Some 0) 50 8 0 8 0 after_100"

text \<open>A registered source with an open window.\<close>

definition woken :: pm_state where
  "woken = ws_pm_stay_awake (Some 0) 1 1 (wakeup_source_add (Some 0) pm_init)"

section \<open>Consistent counters\<close>


lemma upd_ws_simps:
  "objs (upd_ws ws f s) = (objs s)(ws := f (objs s ws))"
  "wakeup_sources (upd_ws ws f s) = wakeup_sources s"
  "events_check_enabled (upd_ws ws f s) = events_check_enabled s"
  "event_count (upd_ws ws f s) = event_count s"
  "saved_count (upd_ws ws f s) = saved_count s"
  "events_in_progress (upd_ws ws f s) = events_in_progress s"
  by (simp_all add: upd_ws_def)

lemma activate_eq:
  "wakeup_source_activate ws j now s =
     s\<lparr> objs := (objs s)(ws := (objs s ws)\<lparr> active := True,
            active_count := active_count (objs s ws) + 1, timer_expires := j, last_time := now \<rparr>),
        events_in_progress := events_in_progress s + 1 \<rparr>"
  by (simp add: wakeup_source_activate_def upd_ws_def Let_def)

lemma deactivate_eq:
  "wakeup_source_deactivate ws now s =
     (if relax_count (objs s ws) + 1 \<noteq> active_count (objs s ws) then s
      else s\<lparr> objs := (objs s)(ws := (objs s ws)\<lparr> relax_count := relax_count (objs s ws) + 1,
                  active := False,
                  total_time := total_time (objs s ws) + (now - last_time (objs s ws)),
                  max_time := (if sint (max_time (objs s ws)) < sint (now - last_time (objs s ws))
                               then now - last_time (objs s ws) else max_time (objs s ws)),
                  timer := None \<rparr>),
             event_count := event_count s + 1,
             events_in_progress := events_in_progress s - 1 \<rparr>)"
  by (simp add: wakeup_source_deactivate_def upd_ws_def Let_def ktime_sub_def ktime_add_def ktime_to_ns_def)

lemma ev0_eq: "ws_pm_wakeup_event m2j p 0 j0 t0 j1 t1 s = ws_pm_relax p t1 (ws_pm_stay_awake p j0 t0 s)"
  by (cases p) (simp_all add: ws_pm_wakeup_event_def ws_pm_relax_def ws_pm_stay_awake_def Let_def activate_eq upd_ws_def)

lemma ev_nonzero_eq:
  "msec \<noteq> 0 \<Longrightarrow> ws_pm_wakeup_event m2j (Some ws) msec j0 t0 j1 t1 s =
     (let s2 = ws_pm_stay_awake (Some ws) j0 t0 s; e = expires_of m2j msec j1
      in if time_after e (timer_expires (objs s2 ws))
         then upd_ws ws (\<lambda>w. w\<lparr> timer := Some e, timer_expires := e \<rparr>) s2 else s2)"
  by (simp add: ws_pm_wakeup_event_def ws_pm_stay_awake_def Let_def expires_of_def upd_ws_def)

lemma upd_keep:
  assumes "active (f (objs s ws)) = active (objs s ws)"
    and "active_count (f (objs s ws)) = active_count (objs s ws)"
    and "relax_count (f (objs s ws)) = relax_count (objs s ws)"
  shows "active_set (upd_ws ws f s) = active_set s" and "pm_inv (upd_ws ws f s) = pm_inv s"
proof -
  show a: "active_set (upd_ws ws f s) = active_set s"
    using assms by (auto simp: active_set_def upd_ws_def)
  have "(\<forall>p. ws_consistent (objs (upd_ws ws f s) p)) = (\<forall>p. ws_consistent (objs s p))"
    using assms by (auto simp: upd_ws_def ws_consistent_def)
  then show "pm_inv (upd_ws ws f s) = pm_inv s"
    by (simp add: pm_inv_def a upd_ws_simps)
qed

lemma stay_awake_inv:
  assumes "pm_inv s"
  shows "pm_inv (ws_pm_stay_awake (Some ws) j t s)"
    and "active_set (ws_pm_stay_awake (Some ws) j t s) = insert ws (active_set s)"
proof -
  let ?s1 = "upd_ws ws (\<lambda>w. w\<lparr> ws_event_count := ws_event_count w + 1 \<rparr>) s"
  have k: "pm_inv ?s1" "active_set ?s1 = active_set s"
    using assms by (simp_all add: upd_keep)
  show "pm_inv (ws_pm_stay_awake (Some ws) j t s)"
  proof (cases "active (objs s ws)")
    case True
    then show ?thesis using k by (simp add: ws_pm_stay_awake_def upd_ws_simps)
  next
    case False
    then have nin: "ws \<notin> active_set s" by (simp add: active_set_def)
    have as: "active_set (wakeup_source_activate ws j t ?s1) = insert ws (active_set s)"
      by (auto simp: activate_eq active_set_def upd_ws_def)
    have c: "\<forall>p. ws_consistent (objs (wakeup_source_activate ws j t ?s1) p)"
      using assms False by (auto simp: activate_eq pm_inv_def ws_consistent_def upd_ws_def)
    have e: "events_in_progress (wakeup_source_activate ws j t ?s1)
               = of_nat (card (insert ws (active_set s)))"
      using assms nin by (simp add: activate_eq pm_inv_def upd_ws_def)
    from False c e as assms show ?thesis
      by (simp add: ws_pm_stay_awake_def upd_ws_simps pm_inv_def)
  qed
  show "active_set (ws_pm_stay_awake (Some ws) j t s) = insert ws (active_set s)"
    by (auto simp: ws_pm_stay_awake_def activate_eq active_set_def upd_ws_def Let_def)
qed

lemma relax_inv:
  assumes "pm_inv s"
  shows "pm_inv (ws_pm_relax (Some ws) t s)"
    and "active_set (ws_pm_relax (Some ws) t s) = active_set s - {ws}"
proof -
  have cons: "ws_consistent (objs s ws)" using assms by (simp add: pm_inv_def)
  show "pm_inv (ws_pm_relax (Some ws) t s)"
  proof (cases "active (objs s ws)")
    case False
    then show ?thesis using assms by (simp add: ws_pm_relax_def)
  next
    case True
    then have rc: "relax_count (objs s ws) + 1 = active_count (objs s ws)"
      using cons by (simp add: ws_consistent_def algebra_simps)
    from True have mem: "ws \<in> active_set s" by (simp add: active_set_def)
    then have pos: "0 < card (active_set s)"
      using assms by (auto simp: pm_inv_def card_gt_0_iff)
    have as: "active_set (wakeup_source_deactivate ws t s) = active_set s - {ws}"
      using rc by (auto simp: deactivate_eq active_set_def)
    have c: "\<forall>p. ws_consistent (objs (wakeup_source_deactivate ws t s) p)"
      using assms rc by (auto simp: deactivate_eq pm_inv_def ws_consistent_def)
    have "of_nat (card (active_set s - {ws})) = (of_nat (card (active_set s)) :: 32 word) - 1"
      using mem pos assms by (simp add: pm_inv_def of_nat_diff)
    then have e: "events_in_progress (wakeup_source_deactivate ws t s)
               = of_nat (card (active_set s - {ws}))"
      using assms rc by (simp add: deactivate_eq pm_inv_def)
    from True c e as assms show ?thesis
      by (simp add: ws_pm_relax_def pm_inv_def)
  qed
  show "active_set (ws_pm_relax (Some ws) t s) = active_set s - {ws}"
    using cons by (auto simp: ws_pm_relax_def deactivate_eq active_set_def ws_consistent_def algebra_simps)
qed


lemma sint_small: "n < 2 ^ 31 \<Longrightarrow> sint (of_nat n :: 32 word) = int n"
  by (simp add: signed_of_nat signed_take_bit_int_eq_self)

lemma exec_event_inv:
  assumes "pm_inv s"
  shows "pm_inv (exec_event m2j e s)"
    and "active_set (exec_event m2j e s) \<subseteq> insert (event_source e) (active_set s)"
proof -
  have both: "pm_inv (exec_event m2j e s)
      \<and> active_set (exec_event m2j e s) \<subseteq> insert (event_source e) (active_set s)"
  proof (cases e)
    case (StayAwake ws j t)
    then show ?thesis using assms by (simp add: stay_awake_inv)
  next
    case (Relax ws t)
    then show ?thesis using assms by (auto simp: relax_inv)
  next
    case (WakeupEvent ws msec j0 t0 j1 t1)
    let ?s2 = "ws_pm_stay_awake (Some ws) j0 t0 s"
    have i2: "pm_inv ?s2" and a2: "active_set ?s2 = insert ws (active_set s)"
      using assms by (simp_all add: stay_awake_inv)
    show ?thesis
    proof (cases "msec = 0")
      case True
      then show ?thesis using WakeupEvent i2 a2 by (auto simp: ev0_eq relax_inv)
    next
      case False
      then show ?thesis using WakeupEvent i2 a2
        by (simp add: ev_nonzero_eq Let_def upd_keep)
    qed
  next
    case (TimerFired ws t)
    let ?s1 = "upd_ws ws (\<lambda>w. w\<lparr> timer := None \<rparr>) s"
    have "pm_inv ?s1" and "active_set ?s1 = active_set s"
      using assms by (simp_all add: upd_keep)
    then show ?thesis using TimerFired
      by (auto simp: pm_wakeup_timer_fn_def relax_inv)
  qed
  from both show "pm_inv (exec_event m2j e s)" ..
  from both show "active_set (exec_event m2j e s) \<subseteq> insert (event_source e) (active_set s)" ..
qed

lemma run_events_inv:
  "pm_inv s \<Longrightarrow> active_set s \<subseteq> P \<Longrightarrow> event_source ` set es \<subseteq> P
     \<Longrightarrow> pm_inv (run_events m2j es s) \<and> active_set (run_events m2j es s) \<subseteq> P"
proof (induction es arbitrary: s)
  case Nil
  then show ?case by simp
next
  case (Cons e es)
  have "pm_inv (exec_event m2j e s)"
    using Cons.prems(1) by (rule exec_event_inv)
  moreover have "active_set (exec_event m2j e s) \<subseteq> P"
    using exec_event_inv(2) [OF Cons.prems(1), of m2j e] Cons.prems(2,3) by auto
  moreover have "event_source ` set es \<subseteq> P" using Cons.prems(3) by auto
  ultimately show ?case using Cons.IH by simp
qed

lemma pm_inv_bounds:
  assumes "pm_inv s" and "active_set s \<subseteq> P" and "finite P" and "card P < 2 ^ 31"
  shows "(\<forall>p. active_count (objs s p) - relax_count (objs s p) \<in> {0, 1})
     \<and> 0 \<le> sint (events_in_progress s)"
proof -
  have "card (active_set s) \<le> card P" using assms(2,3) by (rule card_mono [rotated])
  then have "card (active_set s) < 2 ^ 31" using assms(4) by simp
  then have "sint (events_in_progress s) = int (card (active_set s))"
    using assms(1) by (simp add: pm_inv_def sint_small)
  moreover have "\<forall>p. active_count (objs s p) - relax_count (objs s p) \<in> {0, 1}"
    using assms(1) by (auto simp: pm_inv_def ws_consistent_def)
  ultimately show ?thesis by simp
qed

lemma pm_inv_init: "pm_inv pm_init" "active_set pm_init = {}"
  by (simp_all add: pm_inv_def active_set_def pm_init_def ws_zero_def ws_consistent_def)

text \<open>
  Claim C3. From a state in which the counters are consistent (the boot state is one),
  after every prefix of every sequence of \<open>__pm_stay_awake\<close>, \<open>__pm_relax\<close>,
  \<open>__pm_wakeup_event\<close> and timer expiries on fewer than \<open>2\<^sup>3\<^sup>1\<close> sources, every
  object has \<open>active_count - relax_count\<close> in \<open>{0, 1}\<close> and \<open>events_in_progress\<close>, read
  as a signed value, is not negative.
\<close>

theorem counters_invariant:
  assumes "pm_inv s" and "finite P" and "card P < 2 ^ 31" and "active_set s \<subseteq> P"
    and "event_source ` set es \<subseteq> P"
  shows "\<forall>n \<le> length es.
           (\<forall>p. active_count (objs (run_events m2j (take n es) s) p)
                 - relax_count (objs (run_events m2j (take n es) s) p) \<in> {0, 1})
           \<and> 0 \<le> sint (events_in_progress (run_events m2j (take n es) s))"
proof (intro allI impI)
  fix n
  have "event_source ` set (take n es) \<subseteq> P"
    using assms(5) set_take_subset [of n es] by blast
  then have "pm_inv (run_events m2j (take n es) s)
      \<and> active_set (run_events m2j (take n es) s) \<subseteq> P"
    using assms(1,4) by (intro run_events_inv)
  then show "(\<forall>p. active_count (objs (run_events m2j (take n es) s) p)
                 - relax_count (objs (run_events m2j (take n es) s) p) \<in> {0, 1})
           \<and> 0 \<le> sint (events_in_progress (run_events m2j (take n es) s))"
    using assms(2,3) by (intro pm_inv_bounds) simp_all
qed


lemma m2j_vals: "msecs_to_jiffies_100 100 = 10" "msecs_to_jiffies_100 50 = 5" "msecs_to_jiffies_100 200 = 20"
  by (simp_all add: msecs_to_jiffies_100_def)

text \<open>The invariant at a run of four operations on two sources, from the boot state.\<close>

theorem counters_invariant_witness:
  "active_count (objs (run_events msecs_to_jiffies_100
        (take 3 [StayAwake 0 1 1, WakeupEvent 1 50 2 2 2 2, Relax 0 3, TimerFired 1 9]) pm_init) 0)
    - relax_count (objs (run_events msecs_to_jiffies_100
        (take 3 [StayAwake 0 1 1, WakeupEvent 1 50 2 2 2 2, Relax 0 3, TimerFired 1 9]) pm_init) 0)
      \<in> {0, 1}
   \<and> 0 \<le> sint (events_in_progress (run_events msecs_to_jiffies_100
        (take 3 [StayAwake 0 1 1, WakeupEvent 1 50 2 2 2 2, Relax 0 3, TimerFired 1 9]) pm_init))"
proof -
  have c: "card {0, 1 :: nat} < 2 ^ 31" by simp
  have e: "event_source ` set [StayAwake 0 1 1, WakeupEvent 1 50 2 2 2 2, Relax 0 3, TimerFired 1 9]
             \<subseteq> {0, 1}" by simp
  have a: "active_set pm_init \<subseteq> {0, 1}" by (simp add: pm_inv_init)
  have f: "finite {0, 1 :: nat}" by simp
  show ?thesis
    using counters_invariant [OF pm_inv_init(1) f c a e, of msecs_to_jiffies_100, rule_format, of 3]
    by simp
qed



section \<open>The null pointer and the inactive source\<close>

text \<open>
  Claim C10. With a null pointer, each of \<open>__pm_stay_awake\<close>, \<open>__pm_relax\<close> and
  \<open>__pm_wakeup_event\<close> returns the state as it was: no object and no global changes.
\<close>

theorem null_source_no_change:
  "ws_pm_stay_awake None jiffies now s = s
   \<and> ws_pm_relax None now s = s
   \<and> ws_pm_wakeup_event msecs_to_jiffies None msec jiffies0 now0 jiffies1 now1 s = s"
  by (simp add: ws_pm_stay_awake_def ws_pm_relax_def ws_pm_wakeup_event_def)

text \<open>
  Claim C7. \<open>__pm_relax\<close> on a source whose \<open>active\<close> flag is false returns the whole
  state unchanged: every field of every object and all four globals.
\<close>

theorem relax_inactive_no_change:
  "\<not> active (objs s ws) \<Longrightarrow> ws_pm_relax (Some ws) now s = s"
  by (simp add: ws_pm_relax_def)

text \<open>A second \<open>__pm_relax\<close> after a closed window changes nothing.\<close>

theorem relax_inactive_no_change_witness:
  "ws_pm_relax (Some 0) 9 (ws_pm_relax (Some 0) 7 (ws_pm_stay_awake (Some 0) 1 3 pm_init))
     = ws_pm_relax (Some 0) 7 (ws_pm_stay_awake (Some 0) 1 3 pm_init)"
proof -
  have "\<not> active (objs (ws_pm_relax (Some 0) 7 (ws_pm_stay_awake (Some 0) 1 3 pm_init)) 0)"
    by (simp add: ws_pm_relax_def ws_pm_stay_awake_def activate_eq deactivate_eq upd_ws_def
        pm_init_def ws_zero_def)
  then show ?thesis by (rule relax_inactive_no_change)
qed

section \<open>Saving and checking the wakeup count\<close>


lemma hit_loop_globals:
  "wakeup_sources (hit_loop l s) = wakeup_sources s"
  "events_check_enabled (hit_loop l s) = events_check_enabled s"
  "event_count (hit_loop l s) = event_count s"
  "saved_count (hit_loop l s) = saved_count s"
  "events_in_progress (hit_loop l s) = events_in_progress s"
  by (induction l arbitrary: s; simp add: upd_ws_simps)+

lemma hit_loop_objs:
  "objs (hit_loop l s) p =
     (objs s p)\<lparr> hit_count := hit_count (objs s p)
        + (if active (objs s p) then of_nat (count_list l p) else 0) \<rparr>"
proof (induction l arbitrary: s)
  case Nil
  then show ?case by simp
next
  case (Cons ws rest)
  then show ?case by (simp add: upd_ws_def)
qed

lemma update_hit_counts_globals:
  "wakeup_sources (pm_wakeup_update_hit_counts s) = wakeup_sources s"
  "events_check_enabled (pm_wakeup_update_hit_counts s) = events_check_enabled s"
  "event_count (pm_wakeup_update_hit_counts s) = event_count s"
  "saved_count (pm_wakeup_update_hit_counts s) = saved_count s"
  "events_in_progress (pm_wakeup_update_hit_counts s) = events_in_progress s"
  by (simp_all add: pm_wakeup_update_hit_counts_def hit_loop_globals)

lemma update_hit_counts_objs:
  "objs (pm_wakeup_update_hit_counts s) p =
     (objs s p)\<lparr> hit_count := hit_count (objs s p)
        + (if active (objs s p) then of_nat (count_list (wakeup_sources s) p) else 0) \<rparr>"
  by (simp add: pm_wakeup_update_hit_counts_def hit_loop_objs)

text \<open>
  Claim C1. \<open>pm_save_wakeup_count(count)\<close> returns true exactly when \<open>count\<close> equals
  \<open>event_count\<close> and \<open>events_in_progress\<close> is 0. On success the state changes only in
  \<open>saved_count = count\<close> and \<open>events_check_enabled = true\<close>. On failure the result is the
  state after \<open>pm_wakeup_update_hit_counts\<close>: the globals are unchanged and every
  registered active source has its \<open>hit_count\<close> raised (once per entry of the list).
\<close>

theorem pm_save_wakeup_count_result:
  "fst (pm_save_wakeup_count count s) = (count = event_count s \<and> events_in_progress s = 0)
   \<and> (if count = event_count s \<and> events_in_progress s = 0
       then snd (pm_save_wakeup_count count s)
              = s\<lparr> saved_count := count, events_check_enabled := True \<rparr>
       else snd (pm_save_wakeup_count count s) = pm_wakeup_update_hit_counts s
          \<and> saved_count (snd (pm_save_wakeup_count count s)) = saved_count s
          \<and> events_check_enabled (snd (pm_save_wakeup_count count s)) = events_check_enabled s
          \<and> event_count (snd (pm_save_wakeup_count count s)) = event_count s
          \<and> events_in_progress (snd (pm_save_wakeup_count count s)) = events_in_progress s
          \<and> wakeup_sources (snd (pm_save_wakeup_count count s)) = wakeup_sources s
          \<and> (\<forall>p. objs (snd (pm_save_wakeup_count count s)) p =
                (objs s p)\<lparr> hit_count := hit_count (objs s p)
                  + (if active (objs s p) then of_nat (count_list (wakeup_sources s) p)
                     else 0) \<rparr>))"
  by (simp add: pm_save_wakeup_count_def update_hit_counts_globals update_hit_counts_objs)

text \<open>
  Claim C2. With \<open>events_check_enabled\<close> set, \<open>pm_check_wakeup_events\<close> returns
  \<open>event_count = saved_count \<and> events_in_progress = 0\<close> and stores that value in
  \<open>events_check_enabled\<close>; with the flag clear it returns true and the state is unchanged.
  A true result leaves the objects alone; a false result is followed by
  \<open>pm_wakeup_update_hit_counts\<close>. The other globals never change.
\<close>

theorem pm_check_wakeup_events_result:
  "(if events_check_enabled s
    then fst (pm_check_wakeup_events s)
           = (event_count s = saved_count s \<and> events_in_progress s = 0)
       \<and> events_check_enabled (snd (pm_check_wakeup_events s)) = fst (pm_check_wakeup_events s)
    else fst (pm_check_wakeup_events s) = True \<and> snd (pm_check_wakeup_events s) = s)
   \<and> (if fst (pm_check_wakeup_events s)
       then objs (snd (pm_check_wakeup_events s)) = objs s
       else snd (pm_check_wakeup_events s)
              = pm_wakeup_update_hit_counts (s\<lparr> events_check_enabled := False \<rparr>)
          \<and> (\<forall>p. objs (snd (pm_check_wakeup_events s)) p =
                (objs s p)\<lparr> hit_count := hit_count (objs s p)
                  + (if active (objs s p) then of_nat (count_list (wakeup_sources s) p)
                     else 0) \<rparr>))
   \<and> event_count (snd (pm_check_wakeup_events s)) = event_count s
   \<and> saved_count (snd (pm_check_wakeup_events s)) = saved_count s
   \<and> events_in_progress (snd (pm_check_wakeup_events s)) = events_in_progress s
   \<and> wakeup_sources (snd (pm_check_wakeup_events s)) = wakeup_sources s"
proof (cases "events_check_enabled s")
  case False
  then show ?thesis by (simp add: pm_check_wakeup_events_def)
next
  case True
  then have t: "s\<lparr> events_check_enabled := True \<rparr> = s" by simp
  show ?thesis
  proof (cases "event_count s = saved_count s \<and> events_in_progress s = 0")
    case True
    then show ?thesis using \<open>events_check_enabled s\<close> t
      by (simp add: pm_check_wakeup_events_def Let_def)
  next
    case False
    then have c: "(event_count s = saved_count s \<and> events_in_progress s = 0) = False"
      by simp
    show ?thesis using \<open>events_check_enabled s\<close>
      by (simp add: pm_check_wakeup_events_def Let_def c update_hit_counts_globals
          update_hit_counts_objs)
  qed
qed


lemma woken_fields:
  "events_in_progress woken = 1" "event_count woken = 0" "wakeup_sources woken = [0]"
  "active (objs woken 0)" "hit_count (objs woken 0) = 0" "saved_count woken = 0"
  "\<not> events_check_enabled woken"
  by (simp_all add: woken_def ws_pm_stay_awake_def wakeup_source_add_def activate_eq upd_ws_def
      pm_init_def ws_zero_def Let_def)

text \<open>A successful save at boot, and a failed one while a registered source is active.\<close>

theorem pm_save_wakeup_count_result_witness:
  "fst (pm_save_wakeup_count 0 pm_init)
   \<and> events_check_enabled (snd (pm_save_wakeup_count 0 pm_init))
   \<and> saved_count (snd (pm_save_wakeup_count 0 pm_init)) = 0
   \<and> \<not> fst (pm_save_wakeup_count 0 woken)
   \<and> \<not> events_check_enabled (snd (pm_save_wakeup_count 0 woken))
   \<and> hit_count (objs (snd (pm_save_wakeup_count 0 woken)) 0) = 1"
proof -
  have ca: "0 = event_count pm_init \<and> events_in_progress pm_init = 0"
    by (simp add: pm_init_def)
  have cb: "\<not> (0 = event_count woken \<and> events_in_progress woken = 0)"
    by (simp add: woken_fields)
  note a = pm_save_wakeup_count_result [of 0 pm_init]
  note b = pm_save_wakeup_count_result [of 0 woken]
  note a2 = a [THEN conjunct2, unfolded if_P [OF ca]]
  note b2 = b [THEN conjunct2, unfolded if_not_P [OF cb]]
  have "fst (pm_save_wakeup_count 0 pm_init)"
    using a [THEN conjunct1] ca by simp
  moreover have "events_check_enabled (snd (pm_save_wakeup_count 0 pm_init))"
    "saved_count (snd (pm_save_wakeup_count 0 pm_init)) = 0"
    by (simp_all add: a2)
  moreover have "\<not> fst (pm_save_wakeup_count 0 woken)"
    using b [THEN conjunct1] cb by simp
  moreover have "\<not> events_check_enabled (snd (pm_save_wakeup_count 0 woken))"
    using b2 woken_fields(7) by blast
  moreover have "objs (snd (pm_save_wakeup_count 0 woken)) 0 =
      (objs woken 0)\<lparr> hit_count := hit_count (objs woken 0)
         + (if active (objs woken 0) then of_nat (count_list (wakeup_sources woken) 0) else 0) \<rparr>"
    using b2 by blast
  then have "hit_count (objs (snd (pm_save_wakeup_count 0 woken)) 0) = 1"
    by (simp add: woken_fields)
  ultimately show ?thesis by blast
qed

text \<open>A check with the flag clear, and a failing check with the flag set.\<close>

theorem pm_check_wakeup_events_result_witness:
  "fst (pm_check_wakeup_events pm_init)
   \<and> snd (pm_check_wakeup_events pm_init) = pm_init
   \<and> \<not> fst (pm_check_wakeup_events (woken\<lparr> events_check_enabled := True \<rparr>))
   \<and> \<not> events_check_enabled (snd (pm_check_wakeup_events (woken\<lparr> events_check_enabled := True \<rparr>)))
   \<and> hit_count (objs (snd (pm_check_wakeup_events (woken\<lparr> events_check_enabled := True \<rparr>))) 0) = 1"
proof -
  let ?w = "woken\<lparr> events_check_enabled := True \<rparr>"
  have ca: "\<not> events_check_enabled pm_init" by (simp add: pm_init_def)
  have cb: "events_check_enabled ?w" by simp
  note a = pm_check_wakeup_events_result [of pm_init, THEN conjunct1, unfolded if_not_P [OF ca]]
  note b = pm_check_wakeup_events_result [of ?w]
  note b1 = b [THEN conjunct1, unfolded if_P [OF cb]]
  have nf: "\<not> fst (pm_check_wakeup_events ?w)"
    using b1 [THEN conjunct1] by (simp add: woken_fields)
  note b2 = b [THEN conjunct2, THEN conjunct1, unfolded if_not_P [OF nf]]
  have "\<not> events_check_enabled (snd (pm_check_wakeup_events ?w))"
    using b1 [THEN conjunct2] nf by simp
  moreover have "objs (snd (pm_check_wakeup_events ?w)) 0 =
      (objs ?w 0)\<lparr> hit_count := hit_count (objs ?w 0)
         + (if active (objs ?w 0) then of_nat (count_list (wakeup_sources ?w) 0) else 0) \<rparr>"
    using b2 by blast
  then have "hit_count (objs (snd (pm_check_wakeup_events ?w)) 0) = 1"
    by (simp add: woken_fields)
  ultimately show ?thesis using a nf by blast
qed


section \<open>Reading the wakeup count\<close>


lemma stay_awake_check_enabled:
  "events_check_enabled (ws_pm_stay_awake p j t s) = events_check_enabled s"
  by (cases p) (simp_all add: ws_pm_stay_awake_def activate_eq upd_ws_def Let_def)

lemma relax_check_enabled:
  "events_check_enabled (ws_pm_relax p t s) = events_check_enabled s"
  by (cases p) (simp_all add: ws_pm_relax_def deactivate_eq)

lemma exec_event_check_enabled:
  "events_check_enabled (exec_event m2j e s) = events_check_enabled s"
proof (cases e)
  case (WakeupEvent ws msec j0 t0 j1 t1)
  then show ?thesis
    by (cases "msec = 0")
      (simp_all add: ev0_eq ev_nonzero_eq relax_check_enabled stay_awake_check_enabled
        Let_def upd_ws_simps)
qed (simp_all add: stay_awake_check_enabled relax_check_enabled pm_wakeup_timer_fn_def
      upd_ws_simps)

lemma run_events_check_enabled:
  "events_check_enabled (run_events m2j es s) = events_check_enabled s"
  by (induction es arbitrary: s) (simp_all add: exec_event_check_enabled)

lemma get_wait_exit:
  "get_wait m2j tr sig s = Some (sg, s1) \<Longrightarrow>
     events_check_enabled s1 = events_check_enabled s \<and> (events_in_progress s1 = 0 \<or> sg)"
proof (induction tr arbitrary: sig s)
  case Nil
  then show ?case by (auto split: if_splits)
next
  case (Cons a tr)
  obtain evs sig' where a: "a = (evs, sig')" by (cases a)
  show ?case
  proof (cases "events_in_progress s \<noteq> 0 \<and> \<not> sig")
    case True
    with Cons.prems a have
      "get_wait m2j tr sig' (run_events m2j evs (pm_wakeup_update_hit_counts s)) = Some (sg, s1)"
      by simp
    from Cons.IH [OF this] show ?thesis
      by (simp add: run_events_check_enabled update_hit_counts_globals)
  next
    case False
    with Cons.prems a show ?thesis by auto
  qed
qed

lemma get_wait_immediate:
  "events_in_progress s = 0 \<or> sig \<Longrightarrow> get_wait m2j tr sig s = Some (sig, s)"
  by (cases tr) auto

lemma get_wait_returns:
  "sig \<or> (\<exists>e \<in> set tr. snd e) \<Longrightarrow> get_wait m2j tr sig s \<noteq> None"
proof (induction tr arbitrary: sig s)
  case Nil
  then show ?case by simp
next
  case (Cons a tr)
  obtain evs sig' where a: "a = (evs, sig')" by (cases a)
  show ?case
  proof (cases "events_in_progress s \<noteq> 0 \<and> \<not> sig")
    case True
    with Cons.prems a have "sig' \<or> (\<exists>e \<in> set tr. snd e)" by auto
    from Cons.IH [OF this] True a show ?thesis by simp
  next
    case False
    with a show ?thesis by auto
  qed
qed

lemma get_wait_prefix:
  "keeps_waiting m2j pre sig s \<Longrightarrow>
     get_wait m2j (pre @ rest) sig s
       = get_wait m2j rest (sleep_sig pre sig) (sleep_state m2j pre s)"
proof (induction pre arbitrary: sig s)
  case Nil
  then show ?case by simp
next
  case (Cons a pre)
  obtain evs sig' where a: "a = (evs, sig')" by (cases a)
  from Cons.prems a have w: "events_in_progress s \<noteq> 0 \<and> \<not> sig"
    and k: "keeps_waiting m2j pre sig' (run_events m2j evs (pm_wakeup_update_hit_counts s))"
    by simp_all
  from Cons.IH [OF k] w a show ?case by simp
qed

lemma get_wait_leaves:
  assumes "keeps_waiting m2j pre sig s"
    and "events_in_progress (sleep_state m2j pre s) = 0 \<or> sleep_sig pre sig"
  shows "get_wait m2j (pre @ rest) sig s = Some (sleep_sig pre sig, sleep_state m2j pre s)"
  using get_wait_prefix [OF assms(1), of rest] get_wait_immediate [OF assms(2), of m2j rest]
  by simp

text \<open>
  Claim C8. When \<open>pm_get_wakeup_count\<close> returns: \<open>events_check_enabled\<close> is false if the
  caller is capable and as before otherwise; the value stored at \<open>count\<close> is the current
  \<open>event_count\<close>; the result is false exactly when \<open>events_in_progress\<close> is nonzero at
  the end of the wait, and then a signal was pending at the exit of the loop. A call that
  finds \<open>events_in_progress = 0\<close> on entry returns true at once. The call returns as soon
  as a signal is pending, on entry or after some sleep. In general, when the loop condition
  held before each sleep of \<open>pre\<close> and fails after them, because \<open>events_in_progress\<close>
  has dropped to 0 or a signal is pending, the call returns there, whatever would follow:
  true when \<open>events_in_progress\<close> is 0 (signal or not), false otherwise.
\<close>

theorem pm_get_wakeup_count_result:
  "(pm_get_wakeup_count m2j capable sig tr s = Some (ret, cnt, s') \<longrightarrow>
      events_check_enabled s' = (\<not> capable \<and> events_check_enabled s)
      \<and> cnt = event_count s'
      \<and> (ret = False \<longleftrightarrow> events_in_progress s' \<noteq> 0)
      \<and> (\<exists>sg. get_wait m2j tr sig
                   (if capable then s\<lparr> events_check_enabled := False \<rparr> else s) = Some (sg, s')
            \<and> (\<not> ret \<longrightarrow> sg)))
   \<and> (events_in_progress s = 0 \<longrightarrow>
        pm_get_wakeup_count m2j capable sig tr s
          = Some (True, event_count s,
                  if capable then s\<lparr> events_check_enabled := False \<rparr> else s))
   \<and> (sig \<or> (\<exists>e \<in> set tr. snd e) \<longrightarrow> pm_get_wakeup_count m2j capable sig tr s \<noteq> None)
   \<and> (keeps_waiting m2j pre sig (if capable then s\<lparr> events_check_enabled := False \<rparr> else s)
        \<and> (events_in_progress
              (sleep_state m2j pre (if capable then s\<lparr> events_check_enabled := False \<rparr> else s))
              = 0
             \<or> sleep_sig pre sig) \<longrightarrow>
        pm_get_wakeup_count m2j capable sig (pre @ rest) s
          = Some (events_in_progress
                    (sleep_state m2j pre
                      (if capable then s\<lparr> events_check_enabled := False \<rparr> else s)) = 0,
                  event_count
                    (sleep_state m2j pre
                      (if capable then s\<lparr> events_check_enabled := False \<rparr> else s)),
                  sleep_state m2j pre
                    (if capable then s\<lparr> events_check_enabled := False \<rparr> else s)))"
proof (intro conjI impI)
  let ?s0 = "if capable then s\<lparr> events_check_enabled := False \<rparr> else s"
  {
    assume h: "keeps_waiting m2j pre sig ?s0
        \<and> (events_in_progress (sleep_state m2j pre ?s0) = 0 \<or> sleep_sig pre sig)"
    then have "get_wait m2j (pre @ rest) sig ?s0
        = Some (sleep_sig pre sig, sleep_state m2j pre ?s0)"
      by (intro get_wait_leaves) simp_all
    then show "pm_get_wakeup_count m2j capable sig (pre @ rest) s
          = Some (events_in_progress (sleep_state m2j pre ?s0) = 0,
                  event_count (sleep_state m2j pre ?s0), sleep_state m2j pre ?s0)"
      by (cases capable) (simp_all add: pm_get_wakeup_count_def)
  }
  {
    assume r: "pm_get_wakeup_count m2j capable sig tr s = Some (ret, cnt, s')"
    then obtain sg where g: "get_wait m2j tr sig ?s0 = Some (sg, s')"
      and rc: "ret = (events_in_progress s' = 0)" "cnt = event_count s'"
      by (auto simp: pm_get_wakeup_count_def Let_def split: option.splits)
    from get_wait_exit [OF g]
    have e: "events_check_enabled s' = events_check_enabled ?s0"
      and x: "events_in_progress s' = 0 \<or> sg" by simp_all
    show "events_check_enabled s' = (\<not> capable \<and> events_check_enabled s)"
      using e by simp
    show "cnt = event_count s'" by (rule rc)
    show "(ret = False) = (events_in_progress s' \<noteq> 0)" using rc by simp
    show "\<exists>sg. get_wait m2j tr sig ?s0 = Some (sg, s') \<and> (\<not> ret \<longrightarrow> sg)"
      using g x rc by auto
  }
  {
    assume "events_in_progress s = 0"
    then have "get_wait m2j tr sig ?s0 = Some (sig, ?s0)"
      by (intro get_wait_immediate) simp
    then show "pm_get_wakeup_count m2j capable sig tr s = Some (True, event_count s, ?s0)"
      using \<open>events_in_progress s = 0\<close> by (simp add: pm_get_wakeup_count_def)
  }
  {
    assume "sig \<or> (\<exists>e \<in> set tr. snd e)"
    from get_wait_returns [OF this, of m2j ?s0]
    obtain sg s1 where "get_wait m2j tr sig ?s0 = Some (sg, s1)"
      by (cases "get_wait m2j tr sig ?s0") auto
    then show "pm_get_wakeup_count m2j capable sig tr s \<noteq> None"
      by (cases capable) (simp_all add: pm_get_wakeup_count_def)
  }
qed


lemma woken_counts:
  "active_count (objs woken 0) = 1" "relax_count (objs woken 0) = 0"
  by (simp_all add: woken_def ws_pm_stay_awake_def wakeup_source_add_def activate_eq upd_ws_def
      pm_init_def ws_zero_def Let_def)

text \<open>
  A capable caller at boot, a wait on an open window that a signal interrupts after one
  sleep, and a wait during which the window is closed: that one returns true with the new
  count.
\<close>

theorem pm_get_wakeup_count_result_witness:
  "pm_get_wakeup_count msecs_to_jiffies_100 True False [] pm_init
     = Some (True, 0, pm_init\<lparr> events_check_enabled := False \<rparr>)
   \<and> pm_get_wakeup_count msecs_to_jiffies_100 False False [([], True)] woken
     = Some (False, 0, pm_wakeup_update_hit_counts woken)
   \<and> events_in_progress (pm_wakeup_update_hit_counts woken) \<noteq> 0
   \<and> \<not> events_check_enabled (pm_wakeup_update_hit_counts woken)
   \<and> pm_get_wakeup_count msecs_to_jiffies_100 False False [([], False), ([Relax 0 5], True)] woken
     \<noteq> None
   \<and> pm_get_wakeup_count msecs_to_jiffies_100 False False [([Relax 0 5], False)] woken
     = Some (True, 1, ws_pm_relax (Some 0) 5 (pm_wakeup_update_hit_counts woken))"
proof -
  have ac: "active (objs (pm_wakeup_update_hit_counts woken) 0)"
    "relax_count (objs (pm_wakeup_update_hit_counts woken) 0) + 1
       = active_count (objs (pm_wakeup_update_hit_counts woken) 0)"
    by (simp_all add: update_hit_counts_objs woken_fields woken_counts)
  have st: "sleep_state msecs_to_jiffies_100 [([Relax 0 5], False)] woken
      = ws_pm_relax (Some 0) 5 (pm_wakeup_update_hit_counts woken)"
    by simp
  have z: "events_in_progress (ws_pm_relax (Some 0) 5 (pm_wakeup_update_hit_counts woken)) = 0"
    "event_count (ws_pm_relax (Some 0) 5 (pm_wakeup_update_hit_counts woken)) = 1"
    using ac by (simp_all add: ws_pm_relax_def deactivate_eq update_hit_counts_globals woken_fields)
  have kw: "keeps_waiting msecs_to_jiffies_100 [([Relax 0 5], False)] False
        (if False then woken\<lparr> events_check_enabled := False \<rparr> else woken)
      \<and> (events_in_progress (sleep_state msecs_to_jiffies_100 [([Relax 0 5], False)]
              (if False then woken\<lparr> events_check_enabled := False \<rparr> else woken)) = 0
           \<or> sleep_sig [([Relax 0 5], False)] False)"
    using z by (simp add: woken_fields)
  note d = pm_get_wakeup_count_result [where ?m2j = msecs_to_jiffies_100 and ?capable = False
      and ?sig = False and ?pre = "[([Relax 0 5], False)]" and ?rest = "[]" and ?s = woken,
      THEN conjunct2, THEN conjunct2, THEN conjunct2, rule_format, OF kw]
  have d': "pm_get_wakeup_count msecs_to_jiffies_100 False False [([Relax 0 5], False)] woken
     = Some (True, 1, ws_pm_relax (Some 0) 5 (pm_wakeup_update_hit_counts woken))"
    using d z by simp
  have r: "False \<or> (\<exists>e \<in> set [([], False), ([Relax 0 5], True)]. snd e)" by simp
  note c = pm_get_wakeup_count_result [where ?m2j = msecs_to_jiffies_100 and ?capable = False
      and ?sig = False and ?tr = "[([], False), ([Relax 0 5], True)]" and ?s = woken,
      THEN conjunct2, THEN conjunct2, THEN conjunct1, rule_format, OF r]
  have q: "events_in_progress pm_init = 0" by (simp add: pm_init_def)
  have a: "pm_get_wakeup_count msecs_to_jiffies_100 True False [] pm_init
     = Some (True, 0, pm_init\<lparr> events_check_enabled := False \<rparr>)"
    using pm_get_wakeup_count_result [of msecs_to_jiffies_100 True False "[]" pm_init, THEN conjunct2,
        THEN conjunct1] q
    by (simp add: pm_init_def)
  have b: "pm_get_wakeup_count msecs_to_jiffies_100 False False [([], True)] woken
     = Some (False, 0, pm_wakeup_update_hit_counts woken)"
    by (simp add: pm_get_wakeup_count_def woken_fields update_hit_counts_globals)
  from pm_get_wakeup_count_result [of msecs_to_jiffies_100 False False "[([], True)]" woken
      False 0 "pm_wakeup_update_hit_counts woken", THEN conjunct1] b
  have "events_check_enabled (pm_wakeup_update_hit_counts woken)
          = (\<not> False \<and> events_check_enabled woken)"
    and "(False = False) = (events_in_progress (pm_wakeup_update_hit_counts woken) \<noteq> 0)"
    by blast+
  then show ?thesis using a b c d' by (simp add: woken_fields)
qed


section \<open>One window: stay awake, relax, and the zero timeout\<close>

text \<open>
  Claim C4. On a freshly created source, with no event in progress, \<open>__pm_stay_awake\<close>
  sets \<open>active\<close>, makes \<open>active_count\<close> 1 and raises \<open>events_in_progress\<close> to 1; the
  following \<open>__pm_relax\<close> clears \<open>active\<close>, adds the duration \<open>now2 - now1\<close> of the
  window to \<open>total_time\<close>, stores it in \<open>max_time\<close> when it is greater, adds one to the
  global \<open>event_count\<close> and brings \<open>events_in_progress\<close> back to 0.
\<close>

theorem stay_awake_relax_scenario:
  assumes "objs s ws = ws_zero\<lparr> name := nm \<rparr>" and "events_in_progress s = 0"
  shows "active (objs (ws_pm_stay_awake (Some ws) jiffies now1 s) ws)
    \<and> active_count (objs (ws_pm_stay_awake (Some ws) jiffies now1 s) ws) = 1
    \<and> last_time (objs (ws_pm_stay_awake (Some ws) jiffies now1 s) ws) = now1
    \<and> events_in_progress (ws_pm_stay_awake (Some ws) jiffies now1 s) = 1
    \<and> event_count (ws_pm_stay_awake (Some ws) jiffies now1 s) = event_count s
    \<and> \<not> active (objs (ws_pm_relax (Some ws) now2 (ws_pm_stay_awake (Some ws) jiffies now1 s)) ws)
    \<and> total_time (objs (ws_pm_relax (Some ws) now2 (ws_pm_stay_awake (Some ws) jiffies now1 s)) ws)
        = total_time (objs s ws) + (now2 - now1)
    \<and> max_time (objs (ws_pm_relax (Some ws) now2 (ws_pm_stay_awake (Some ws) jiffies now1 s)) ws)
        = (if sint (max_time (objs s ws)) < sint (now2 - now1) then now2 - now1
           else max_time (objs s ws))
    \<and> relax_count (objs (ws_pm_relax (Some ws) now2 (ws_pm_stay_awake (Some ws) jiffies now1 s)) ws) = 1
    \<and> event_count (ws_pm_relax (Some ws) now2 (ws_pm_stay_awake (Some ws) jiffies now1 s))
        = event_count s + 1
    \<and> events_in_progress (ws_pm_relax (Some ws) now2 (ws_pm_stay_awake (Some ws) jiffies now1 s)) = 0"
  using assms
  by (simp add: ws_pm_stay_awake_def ws_pm_relax_def activate_eq deactivate_eq upd_ws_def
      ws_zero_def Let_def)

text \<open>A window from 100 ns to 250 ns on source 0 of the boot state.\<close>

theorem stay_awake_relax_scenario_witness:
  "active (objs (ws_pm_stay_awake (Some 0) 7 100 pm_init) 0)
    \<and> active_count (objs (ws_pm_stay_awake (Some 0) 7 100 pm_init) 0) = 1
    \<and> events_in_progress (ws_pm_stay_awake (Some 0) 7 100 pm_init) = 1
    \<and> \<not> active (objs (ws_pm_relax (Some 0) 250 (ws_pm_stay_awake (Some 0) 7 100 pm_init)) 0)
    \<and> total_time (objs (ws_pm_relax (Some 0) 250 (ws_pm_stay_awake (Some 0) 7 100 pm_init)) 0) = 150
    \<and> max_time (objs (ws_pm_relax (Some 0) 250 (ws_pm_stay_awake (Some 0) 7 100 pm_init)) 0) = 150
    \<and> event_count (ws_pm_relax (Some 0) 250 (ws_pm_stay_awake (Some 0) 7 100 pm_init)) = 1
    \<and> events_in_progress (ws_pm_relax (Some 0) 250 (ws_pm_stay_awake (Some 0) 7 100 pm_init)) = 0"
proof -
  have f: "objs pm_init 0 = ws_zero\<lparr> name := None \<rparr>" by (simp add: pm_init_def ws_zero_def)
  have q: "events_in_progress pm_init = 0" by (simp add: pm_init_def)
  show ?thesis
    using stay_awake_relax_scenario [OF f q, of 7 100 250]
    by (simp add: pm_init_def ws_zero_def)
qed

lemma readded_fields:
  "\<not> active (objs readded_source 0)" "active_count (objs readded_source 0) = 1"
  "relax_count (objs readded_source 0) = 0" "total_time (objs readded_source 0) = 0"
  "events_in_progress readded_source = 1" "event_count readded_source = 0"
  by (simp_all add: readded_source_def wakeup_source_add_def wakeup_source_remove_def
      wakeup_source_create_def ws_pm_stay_awake_def activate_eq upd_ws_def pm_init_def
      ws_zero_def Let_def)

text \<open>
  Claim C5 does not hold in every state: on the source that was added again while its
  window was open, \<open>__pm_wakeup_event(ws, 0)\<close> with clock reads 1 ns and 2 ns leaves
  \<open>active\<close> set, records no window and does not count an event, because the tie-break
  of \<open>wakeup_source_deactivate\<close> finds \<open>relax_count + 1 \<noteq> active_count\<close>.
\<close>

theorem wakeup_event_zero_counterexample:
  "active (objs (ws_pm_wakeup_event msecs_to_jiffies_100 (Some 0) 0 1 1 1 2 readded_source) 0)
   \<and> total_time (objs (ws_pm_wakeup_event msecs_to_jiffies_100 (Some 0) 0 1 1 1 2 readded_source) 0)
       = 0
   \<and> event_count (ws_pm_wakeup_event msecs_to_jiffies_100 (Some 0) 0 1 1 1 2 readded_source) = 0"
  by (simp add: ws_pm_wakeup_event_def activate_eq deactivate_eq upd_ws_def Let_def
      readded_fields)

text \<open>
  Claim C5, amended. In every state, null pointer and open window included,
  \<open>__pm_wakeup_event(ws, 0)\<close> gives the same state as \<open>__pm_stay_awake(ws)\<close> followed by
  \<open>__pm_relax(ws)\<close> with the same clock reads. When the counters of the source are
  consistent, the source ends inactive, one window (from \<open>last_time\<close> of the open window,
  or from the activation of this call) is added to \<open>total_time\<close>, the global
  \<open>event_count\<close> grows by one and \<open>events_in_progress\<close> is as before the call for an
  inactive source and one less for an active one. When they are not consistent, the
  tie-break leaves the source active and records nothing: \<open>total_time\<close>, \<open>max_time\<close>,
  \<open>relax_count\<close> and the global \<open>event_count\<close> are as before, and
  \<open>events_in_progress\<close> is one more if the call activated the source.
\<close>

theorem wakeup_event_zero_refines:
  "ws_pm_wakeup_event m2j p 0 j0 t0 j1 t1 s = ws_pm_relax p t1 (ws_pm_stay_awake p j0 t0 s)
   \<and> (p = Some ws \<and> ws_consistent (objs s ws) \<longrightarrow>
        \<not> active (objs (ws_pm_wakeup_event m2j p 0 j0 t0 j1 t1 s) ws)
        \<and> total_time (objs (ws_pm_wakeup_event m2j p 0 j0 t0 j1 t1 s) ws)
            = total_time (objs s ws)
              + (t1 - (if active (objs s ws) then last_time (objs s ws) else t0))
        \<and> event_count (ws_pm_wakeup_event m2j p 0 j0 t0 j1 t1 s) = event_count s + 1
        \<and> events_in_progress (ws_pm_wakeup_event m2j p 0 j0 t0 j1 t1 s)
            = (if active (objs s ws) then events_in_progress s - 1 else events_in_progress s))
   \<and> (p = Some ws \<and> \<not> ws_consistent (objs s ws) \<longrightarrow>
        active (objs (ws_pm_wakeup_event m2j p 0 j0 t0 j1 t1 s) ws)
        \<and> total_time (objs (ws_pm_wakeup_event m2j p 0 j0 t0 j1 t1 s) ws)
            = total_time (objs s ws)
        \<and> max_time (objs (ws_pm_wakeup_event m2j p 0 j0 t0 j1 t1 s) ws) = max_time (objs s ws)
        \<and> relax_count (objs (ws_pm_wakeup_event m2j p 0 j0 t0 j1 t1 s) ws)
            = relax_count (objs s ws)
        \<and> event_count (ws_pm_wakeup_event m2j p 0 j0 t0 j1 t1 s) = event_count s
        \<and> events_in_progress (ws_pm_wakeup_event m2j p 0 j0 t0 j1 t1 s)
            = (if active (objs s ws) then events_in_progress s else events_in_progress s + 1))"
proof (intro conjI impI)
  show "ws_pm_wakeup_event m2j p 0 j0 t0 j1 t1 s = ws_pm_relax p t1 (ws_pm_stay_awake p j0 t0 s)"
    by (rule ev0_eq)
next
  assume h: "p = Some ws \<and> \<not> ws_consistent (objs s ws)"
  then have p: "p = Some ws" and c: "\<not> ws_consistent (objs s ws)" by simp_all
  have e: "ws_pm_wakeup_event m2j p 0 j0 t0 j1 t1 s
             = ws_pm_relax (Some ws) t1 (ws_pm_stay_awake (Some ws) j0 t0 s)"
    using p by (simp add: ev0_eq)
  have n: "relax_count (objs s ws) + 1
      \<noteq> (if active (objs s ws) then active_count (objs s ws) else active_count (objs s ws) + 1)"
    using c by (auto simp: ws_consistent_def)
  show "active (objs (ws_pm_wakeup_event m2j p 0 j0 t0 j1 t1 s) ws)"
    unfolding e using n
    by (simp add: ws_pm_stay_awake_def ws_pm_relax_def activate_eq deactivate_eq upd_ws_def
        Let_def split: if_splits)
  show "total_time (objs (ws_pm_wakeup_event m2j p 0 j0 t0 j1 t1 s) ws) = total_time (objs s ws)"
    unfolding e using n
    by (simp add: ws_pm_stay_awake_def ws_pm_relax_def activate_eq deactivate_eq upd_ws_def
        Let_def split: if_splits)
  show "max_time (objs (ws_pm_wakeup_event m2j p 0 j0 t0 j1 t1 s) ws) = max_time (objs s ws)"
    unfolding e using n
    by (simp add: ws_pm_stay_awake_def ws_pm_relax_def activate_eq deactivate_eq upd_ws_def
        Let_def split: if_splits)
  show "relax_count (objs (ws_pm_wakeup_event m2j p 0 j0 t0 j1 t1 s) ws)
      = relax_count (objs s ws)"
    unfolding e using n
    by (simp add: ws_pm_stay_awake_def ws_pm_relax_def activate_eq deactivate_eq upd_ws_def
        Let_def split: if_splits)
  show "event_count (ws_pm_wakeup_event m2j p 0 j0 t0 j1 t1 s) = event_count s"
    unfolding e using n
    by (simp add: ws_pm_stay_awake_def ws_pm_relax_def activate_eq deactivate_eq upd_ws_def
        Let_def split: if_splits)
  show "events_in_progress (ws_pm_wakeup_event m2j p 0 j0 t0 j1 t1 s)
      = (if active (objs s ws) then events_in_progress s else events_in_progress s + 1)"
    unfolding e using n
    by (simp add: ws_pm_stay_awake_def ws_pm_relax_def activate_eq deactivate_eq upd_ws_def
        Let_def split: if_splits)
next
  assume h: "p = Some ws \<and> ws_consistent (objs s ws)"
  then have p: "p = Some ws" and c: "ws_consistent (objs s ws)" by simp_all
  have e: "ws_pm_wakeup_event m2j p 0 j0 t0 j1 t1 s
             = ws_pm_relax (Some ws) t1 (ws_pm_stay_awake (Some ws) j0 t0 s)"
    using p by (simp add: ev0_eq)
  show "\<not> active (objs (ws_pm_wakeup_event m2j p 0 j0 t0 j1 t1 s) ws)"
    unfolding e using c
    by (simp add: ws_pm_stay_awake_def ws_pm_relax_def activate_eq deactivate_eq upd_ws_def
        ws_consistent_def Let_def)
  show "total_time (objs (ws_pm_wakeup_event m2j p 0 j0 t0 j1 t1 s) ws)
            = total_time (objs s ws)
              + (t1 - (if active (objs s ws) then last_time (objs s ws) else t0))"
    unfolding e using c
    by (simp add: ws_pm_stay_awake_def ws_pm_relax_def activate_eq deactivate_eq upd_ws_def
        ws_consistent_def Let_def)
  show "event_count (ws_pm_wakeup_event m2j p 0 j0 t0 j1 t1 s) = event_count s + 1"
    unfolding e using c
    by (simp add: ws_pm_stay_awake_def ws_pm_relax_def activate_eq deactivate_eq upd_ws_def
        ws_consistent_def Let_def)
  show "events_in_progress (ws_pm_wakeup_event m2j p 0 j0 t0 j1 t1 s)
            = (if active (objs s ws) then events_in_progress s - 1 else events_in_progress s)"
    unfolding e using c
    by (simp add: ws_pm_stay_awake_def ws_pm_relax_def activate_eq deactivate_eq upd_ws_def
        ws_consistent_def Let_def)
qed

text \<open>
  The zero timeout on source 0 of the boot state, with clock reads 100 ns and 250 ns, and
  on the source that was added again while its window was open.
\<close>

theorem wakeup_event_zero_refines_witness:
  "ws_pm_wakeup_event msecs_to_jiffies_100 (Some 0) 0 7 100 7 250 pm_init
     = ws_pm_relax (Some 0) 250 (ws_pm_stay_awake (Some 0) 7 100 pm_init)
   \<and> \<not> active (objs (ws_pm_wakeup_event msecs_to_jiffies_100 (Some 0) 0 7 100 7 250 pm_init) 0)
   \<and> total_time (objs (ws_pm_wakeup_event msecs_to_jiffies_100 (Some 0) 0 7 100 7 250 pm_init) 0)
       = 150
   \<and> event_count (ws_pm_wakeup_event msecs_to_jiffies_100 (Some 0) 0 7 100 7 250 pm_init) = 1
   \<and> events_in_progress (ws_pm_wakeup_event msecs_to_jiffies_100 (Some 0) 0 7 100 7 250 pm_init) = 0
   \<and> active (objs (ws_pm_wakeup_event msecs_to_jiffies_100 (Some 0) 0 7 100 7 250
                      readded_source) 0)
   \<and> event_count (ws_pm_wakeup_event msecs_to_jiffies_100 (Some 0) 0 7 100 7 250 readded_source)
       = 0
   \<and> events_in_progress (ws_pm_wakeup_event msecs_to_jiffies_100 (Some 0) 0 7 100 7 250
                             readded_source) = 2"
proof -
  have c: "Some (0::nat) = Some 0 \<and> ws_consistent (objs pm_init 0)"
    by (simp add: ws_consistent_def pm_init_def ws_zero_def)
  have n: "Some (0::nat) = Some 0 \<and> \<not> ws_consistent (objs readded_source 0)"
    by (simp add: ws_consistent_def readded_fields)
  note t = wakeup_event_zero_refines [of msecs_to_jiffies_100 "Some 0" 7 100 7 250 pm_init 0]
  note u = wakeup_event_zero_refines [of msecs_to_jiffies_100 "Some 0" 7 100 7 250
      readded_source 0, THEN conjunct2, THEN conjunct2, rule_format, OF n]
  from u have v: "active (objs (ws_pm_wakeup_event msecs_to_jiffies_100 (Some 0) 0 7 100 7 250
                      readded_source) 0)
   \<and> event_count (ws_pm_wakeup_event msecs_to_jiffies_100 (Some 0) 0 7 100 7 250 readded_source)
       = 0
   \<and> events_in_progress (ws_pm_wakeup_event msecs_to_jiffies_100 (Some 0) 0 7 100 7 250
                             readded_source) = 2"
    by (simp add: readded_fields)
  from t [THEN conjunct2, THEN conjunct1, rule_format, OF c] t [THEN conjunct1] v
  show ?thesis by (simp add: pm_init_def ws_zero_def)
qed

section \<open>The deadline of the timer\<close>


lemma sint_cases32:
  "sint (x :: 32 word) = (if uint x < 2 ^ 31 then uint x else uint x - 2 ^ 32)"
proof -
  have b: "0 \<le> uint x" "uint x < 2 ^ 32" using uint_bounded [of x] by simp_all
  have s: "sint x = (uint x + 2 ^ 31) mod 2 ^ 32 - 2 ^ 31"
    by (simp add: sint_uint signed_take_bit_eq_take_bit_shift take_bit_eq_mod)
  show ?thesis
  proof (cases "uint x < 2 ^ 31")
    case True
    then have "(uint x + 2 ^ 31) mod 2 ^ 32 = uint x + 2 ^ 31"
      using b by (intro mod_pos_pos_trivial) simp_all
    with True s show ?thesis by simp
  next
    case False
    have "uint x + 2 ^ 31 = (uint x - 2 ^ 31) + 2 ^ 32"
      by simp
    then have "(uint x + 2 ^ 31) mod 2 ^ 32 = ((uint x - 2 ^ 31) + 2 ^ 32) mod 2 ^ 32"
      by (rule arg_cong)
    also have "\<dots> = (uint x - 2 ^ 31) mod 2 ^ 32"
      by (rule mod_add_self2)
    also have "\<dots> = uint x - 2 ^ 31"
      using b False by (intro mod_pos_pos_trivial) simp_all
    finally show ?thesis using False s by simp
  qed
qed

lemma time_after_uint: "time_after a b \<longleftrightarrow> 2 ^ 31 \<le> uint (b - a)"
  using uint_bounded [of "b - a"] by (simp add: time_after_def sint_cases32)

lemma uint_pos: "(d :: 32 word) \<noteq> 0 \<Longrightarrow> 0 < uint d"
proof -
  assume "d \<noteq> 0"
  then have "uint d \<noteq> 0" by (simp add: word_uint_eq_iff)
  then show ?thesis using uint_ge_0 [of d] by linarith
qed

lemma first_schedule_after:
  assumes "m2j msec \<noteq> 0" and "uint (j1 - j0) + uint (m2j msec) < 2 ^ 31"
  shows "time_after (expires_of m2j msec j1) j0"
  using assms(2) uint_bounded [of j0] uint_bounded [of j1] uint_pos [OF assms(1)]
  by (simp add: time_after_uint expires_of_def word_uint_eq_iff uint_plus_if' uint_sub_if'
      split: if_splits)

lemma shorter_not_after:
  assumes "m2j a \<noteq> 0" and "uint (m2j a) \<le> uint (m2j b)" and "uint (m2j b) < 2 ^ 31"
  shows "\<not> time_after (expires_of m2j a j) (expires_of m2j b j)"
  using assms(2,3) uint_bounded [of j] uint_pos [OF assms(1)]
  by (simp add: time_after_uint expires_of_def word_uint_eq_iff uint_plus_if' uint_sub_if'
      split: if_splits)

lemma longer_after:
  assumes "m2j a \<noteq> 0" and "uint (m2j a) < uint (m2j b)" and "uint (m2j b) < 2 ^ 31"
  shows "time_after (expires_of m2j b j) (expires_of m2j a j)
     \<or> expires_of m2j b j = expires_of m2j a j"
  using assms(2,3) uint_bounded [of j] uint_pos [OF assms(1)]
  by (simp add: time_after_uint expires_of_def word_uint_eq_iff uint_plus_if' uint_sub_if'
      split: if_splits)

lemma ev_nonzero_fields:
  assumes "msec \<noteq> 0"
  shows "active (objs (ws_pm_wakeup_event m2j (Some ws) msec j0 t0 j1 t1 s) ws)"
    and "timer_expires (objs (ws_pm_wakeup_event m2j (Some ws) msec j0 t0 j1 t1 s) ws) =
      (if time_after (expires_of m2j msec j1)
            (if active (objs s ws) then timer_expires (objs s ws) else j0)
       then expires_of m2j msec j1
       else if active (objs s ws) then timer_expires (objs s ws) else j0)"
    and "timer (objs (ws_pm_wakeup_event m2j (Some ws) msec j0 t0 j1 t1 s) ws) =
      (if time_after (expires_of m2j msec j1)
            (if active (objs s ws) then timer_expires (objs s ws) else j0)
       then Some (expires_of m2j msec j1) else timer (objs s ws))"
  using assms
  by (simp_all add: ev_nonzero_eq ws_pm_stay_awake_def activate_eq upd_ws_def Let_def)


lemma after_100_fields:
  "active (objs after_100 0)" "timer_expires (objs after_100 0) = 10"
  "timer (objs after_100 0) = Some 10"
  by (simp_all add: after_100_def ev_nonzero_fields expires_of_def m2j_vals time_after_def
      pm_init_def ws_zero_def)

text \<open>
  Claim C6 does not hold as stated. At \<open>HZ = 100\<close>, \<open>__pm_wakeup_event(ws, 100)\<close> at
  tick 0 sets the deadline to tick 10. At tick 8 that deadline has not passed, and
  \<open>__pm_wakeup_event(ws, 50)\<close> computes the deadline 13, which is after 10: the timer is
  moved to 13 and the deadline of the first call is no longer in effect.
\<close>

theorem late_short_timeout_counterexample:
  "active (objs after_100 0)
   \<and> timer_expires (objs after_100 0) = 10
   \<and> timer (objs after_100 0) = Some 10
   \<and> time_after 10 8
   \<and> timer_expires (objs after_100_50 0) = 13
   \<and> timer (objs after_100_50 0) = Some 13"
  by (simp add: after_100_fields after_100_50_def ev_nonzero_fields expires_of_def m2j_vals
      time_after_def)

text \<open>
  Claim C6, amended. With \<open>expires\<close> the deadline the call computes from the tick it
  reads: on an active source a nonzero timeout moves \<open>timer_expires\<close> and the timer to
  \<open>expires\<close> exactly when \<open>time_after expires timer_expires\<close>, and otherwise leaves
  both untouched, so the deadline never moves earlier. On an inactive source the
  activation resets the tracker and the first schedule takes effect, for a timeout of at
  least one tick and fewer than \<open>2\<^sup>3\<^sup>1\<close> ticks ahead of the activation; the same holds
  for the first schedule after an activation by \<open>__pm_stay_awake\<close>. Three calls that
  read the same tick, with timeouts of 100, 50 and 200 ms on an inactive source: the 50 ms
  call leaves the deadline of the 100 ms call in effect and the 200 ms call extends it.
\<close>

theorem timer_deadline_extension:
  "(msec \<noteq> 0 \<and> active (objs s ws) \<longrightarrow>
      (if time_after (expires_of m2j msec j1) (timer_expires (objs s ws))
       then timer_expires (objs (ws_pm_wakeup_event m2j (Some ws) msec j0 t0 j1 t1 s) ws)
              = expires_of m2j msec j1
          \<and> timer (objs (ws_pm_wakeup_event m2j (Some ws) msec j0 t0 j1 t1 s) ws)
              = Some (expires_of m2j msec j1)
       else timer_expires (objs (ws_pm_wakeup_event m2j (Some ws) msec j0 t0 j1 t1 s) ws)
              = timer_expires (objs s ws)
          \<and> timer (objs (ws_pm_wakeup_event m2j (Some ws) msec j0 t0 j1 t1 s) ws)
              = timer (objs s ws))
      \<and> (timer_expires (objs (ws_pm_wakeup_event m2j (Some ws) msec j0 t0 j1 t1 s) ws)
            = timer_expires (objs s ws)
          \<or> time_after
               (timer_expires (objs (ws_pm_wakeup_event m2j (Some ws) msec j0 t0 j1 t1 s) ws))
               (timer_expires (objs s ws))))
   \<and> (msec \<noteq> 0 \<and> \<not> active (objs s ws) \<and> m2j msec \<noteq> 0
        \<and> uint (j1 - j0) + uint (m2j msec) < 2 ^ 31 \<longrightarrow>
      timer_expires (objs (ws_pm_wakeup_event m2j (Some ws) msec j0 t0 j1 t1 s) ws)
        = expires_of m2j msec j1
      \<and> timer (objs (ws_pm_wakeup_event m2j (Some ws) msec j0 t0 j1 t1 s) ws)
        = Some (expires_of m2j msec j1))
   \<and> (msec \<noteq> 0 \<and> \<not> active (objs s ws) \<and> m2j msec \<noteq> 0
        \<and> uint (j1 - j) + uint (m2j msec) < 2 ^ 31 \<longrightarrow>
      timer_expires (objs (ws_pm_wakeup_event m2j (Some ws) msec j0 t0 j1 t1
                             (ws_pm_stay_awake (Some ws) j t2 s)) ws)
        = expires_of m2j msec j1
      \<and> timer (objs (ws_pm_wakeup_event m2j (Some ws) msec j0 t0 j1 t1
                             (ws_pm_stay_awake (Some ws) j t2 s)) ws)
        = Some (expires_of m2j msec j1))
   \<and> (\<not> active (objs s ws) \<and> m2j 50 \<noteq> 0 \<and> uint (m2j 50) \<le> uint (m2j 100)
        \<and> uint (m2j 100) < uint (m2j 200) \<and> uint (m2j 200) < 2 ^ 31 \<longrightarrow>
      timer (objs (ws_pm_wakeup_event m2j (Some ws) 100 j t0 j t1 s) ws)
        = Some (expires_of m2j 100 j)
      \<and> timer (objs (ws_pm_wakeup_event m2j (Some ws) 50 j t2 j t3
                  (ws_pm_wakeup_event m2j (Some ws) 100 j t0 j t1 s)) ws)
        = Some (expires_of m2j 100 j)
      \<and> timer_expires (objs (ws_pm_wakeup_event m2j (Some ws) 50 j t2 j t3
                  (ws_pm_wakeup_event m2j (Some ws) 100 j t0 j t1 s)) ws)
        = expires_of m2j 100 j
      \<and> timer (objs (ws_pm_wakeup_event m2j (Some ws) 200 j t4 j t5
                  (ws_pm_wakeup_event m2j (Some ws) 50 j t2 j t3
                    (ws_pm_wakeup_event m2j (Some ws) 100 j t0 j t1 s))) ws)
        = Some (expires_of m2j 200 j)
      \<and> timer_expires (objs (ws_pm_wakeup_event m2j (Some ws) 200 j t4 j t5
                  (ws_pm_wakeup_event m2j (Some ws) 50 j t2 j t3
                    (ws_pm_wakeup_event m2j (Some ws) 100 j t0 j t1 s))) ws)
        = expires_of m2j 200 j)"
proof (intro conjI impI)
  assume h: "msec \<noteq> 0 \<and> active (objs s ws)"
  then show "if time_after (expires_of m2j msec j1) (timer_expires (objs s ws))
       then timer_expires (objs (ws_pm_wakeup_event m2j (Some ws) msec j0 t0 j1 t1 s) ws)
              = expires_of m2j msec j1
          \<and> timer (objs (ws_pm_wakeup_event m2j (Some ws) msec j0 t0 j1 t1 s) ws)
              = Some (expires_of m2j msec j1)
       else timer_expires (objs (ws_pm_wakeup_event m2j (Some ws) msec j0 t0 j1 t1 s) ws)
              = timer_expires (objs s ws)
          \<and> timer (objs (ws_pm_wakeup_event m2j (Some ws) msec j0 t0 j1 t1 s) ws)
              = timer (objs s ws)"
    by (simp add: ev_nonzero_fields)
  from h show "timer_expires (objs (ws_pm_wakeup_event m2j (Some ws) msec j0 t0 j1 t1 s) ws)
            = timer_expires (objs s ws)
          \<or> time_after
               (timer_expires (objs (ws_pm_wakeup_event m2j (Some ws) msec j0 t0 j1 t1 s) ws))
               (timer_expires (objs s ws))"
    by (simp add: ev_nonzero_fields)
next
  assume h: "msec \<noteq> 0 \<and> \<not> active (objs s ws) \<and> m2j msec \<noteq> 0
        \<and> uint (j1 - j0) + uint (m2j msec) < 2 ^ 31"
  then have "time_after (expires_of m2j msec j1) j0"
    by (intro first_schedule_after) simp_all
  with h show "timer_expires (objs (ws_pm_wakeup_event m2j (Some ws) msec j0 t0 j1 t1 s) ws)
        = expires_of m2j msec j1"
    and "timer (objs (ws_pm_wakeup_event m2j (Some ws) msec j0 t0 j1 t1 s) ws)
        = Some (expires_of m2j msec j1)"
    by (simp_all add: ev_nonzero_fields)
next
  assume h: "msec \<noteq> 0 \<and> \<not> active (objs s ws) \<and> m2j msec \<noteq> 0
        \<and> uint (j1 - j) + uint (m2j msec) < 2 ^ 31"
  let ?s1 = "ws_pm_stay_awake (Some ws) j t2 s"
  from h have a: "active (objs ?s1 ws)" "timer_expires (objs ?s1 ws) = j"
    by (simp_all add: ws_pm_stay_awake_def activate_eq upd_ws_def Let_def)
  from h have "time_after (expires_of m2j msec j1) j"
    by (intro first_schedule_after) simp_all
  with h a show "timer_expires (objs (ws_pm_wakeup_event m2j (Some ws) msec j0 t0 j1 t1 ?s1) ws)
        = expires_of m2j msec j1"
    and "timer (objs (ws_pm_wakeup_event m2j (Some ws) msec j0 t0 j1 t1 ?s1) ws)
        = Some (expires_of m2j msec j1)"
    by (simp_all add: ev_nonzero_fields)
next
  assume h: "\<not> active (objs s ws) \<and> m2j 50 \<noteq> 0 \<and> uint (m2j 50) \<le> uint (m2j 100)
        \<and> uint (m2j 100) < uint (m2j 200) \<and> uint (m2j 200) < 2 ^ 31"
  let ?s1 = "ws_pm_wakeup_event m2j (Some ws) 100 j t0 j t1 s"
  let ?s2 = "ws_pm_wakeup_event m2j (Some ws) 50 j t2 j t3 ?s1"
  let ?s3 = "ws_pm_wakeup_event m2j (Some ws) 200 j t4 j t5 ?s2"
  from h have p50: "0 < uint (m2j 50)" by (simp add: uint_pos)
  with h have nz: "m2j 100 \<noteq> 0" by auto
  have "time_after (expires_of m2j 100 j) j"
    using nz h by (intro first_schedule_after) simp_all
  with h have s1: "active (objs ?s1 ws)" "timer_expires (objs ?s1 ws) = expires_of m2j 100 j"
    "timer (objs ?s1 ws) = Some (expires_of m2j 100 j)"
    by (simp_all add: ev_nonzero_fields)
  have "\<not> time_after (expires_of m2j 50 j) (expires_of m2j 100 j)"
    using h by (intro shorter_not_after) simp_all
  with s1 have s2: "active (objs ?s2 ws)" "timer_expires (objs ?s2 ws) = expires_of m2j 100 j"
    "timer (objs ?s2 ws) = Some (expires_of m2j 100 j)"
    by (simp_all add: ev_nonzero_fields)
  have "time_after (expires_of m2j 200 j) (expires_of m2j 100 j)
     \<or> expires_of m2j 200 j = expires_of m2j 100 j"
    using nz h by (intro longer_after) simp_all
  with s2 have s3: "timer_expires (objs ?s3 ws) = expires_of m2j 200 j"
    "timer (objs ?s3 ws) = Some (expires_of m2j 200 j)"
    by (auto simp: ev_nonzero_fields)
  show "timer (objs ?s1 ws) = Some (expires_of m2j 100 j)" by (rule s1)
  show "timer (objs ?s2 ws) = Some (expires_of m2j 100 j)" by (rule s2)
  show "timer_expires (objs ?s2 ws) = expires_of m2j 100 j" by (rule s2)
  show "timer (objs ?s3 ws) = Some (expires_of m2j 200 j)" by (rule s3)
  show "timer_expires (objs ?s3 ws) = expires_of m2j 200 j" by (rule s3)
qed


text \<open>
  The three calls at tick 3 and \<open>HZ = 100\<close>, and the late 50 ms call at tick 8 that
  extends the deadline.
\<close>

theorem timer_deadline_extension_witness:
  "timer (objs (ws_pm_wakeup_event msecs_to_jiffies_100 (Some 0) 50 3 0 3 0
            (ws_pm_wakeup_event msecs_to_jiffies_100 (Some 0) 100 3 0 3 0 pm_init)) 0) = Some 13
   \<and> timer_expires (objs (ws_pm_wakeup_event msecs_to_jiffies_100 (Some 0) 50 3 0 3 0
            (ws_pm_wakeup_event msecs_to_jiffies_100 (Some 0) 100 3 0 3 0 pm_init)) 0) = 13
   \<and> timer (objs (ws_pm_wakeup_event msecs_to_jiffies_100 (Some 0) 200 3 0 3 0
            (ws_pm_wakeup_event msecs_to_jiffies_100 (Some 0) 50 3 0 3 0
              (ws_pm_wakeup_event msecs_to_jiffies_100 (Some 0) 100 3 0 3 0 pm_init))) 0) = Some 23
   \<and> timer_expires (objs (ws_pm_wakeup_event msecs_to_jiffies_100 (Some 0) 200 3 0 3 0
            (ws_pm_wakeup_event msecs_to_jiffies_100 (Some 0) 50 3 0 3 0
              (ws_pm_wakeup_event msecs_to_jiffies_100 (Some 0) 100 3 0 3 0 pm_init))) 0) = 23
   \<and> timer_expires (objs (ws_pm_wakeup_event msecs_to_jiffies_100 (Some 0) 50 8 0 8 0 after_100) 0)
       = 13
   \<and> timer_expires (objs (ws_pm_wakeup_event msecs_to_jiffies_100 (Some 0) 100 3 0 3 0 pm_init) 0)
       = 13
   \<and> timer (objs (ws_pm_wakeup_event msecs_to_jiffies_100 (Some 0) 100 5 0 5 0
                     (ws_pm_stay_awake (Some 0) 3 0 pm_init)) 0) = Some 15"
proof -
  have k: "(100 :: uint) \<noteq> 0 \<and> \<not> active (objs pm_init 0) \<and> msecs_to_jiffies_100 100 \<noteq> 0
      \<and> uint (3 - 3 :: ulong) + uint (msecs_to_jiffies_100 100) < 2 ^ 31"
    by (simp add: m2j_vals pm_init_def ws_zero_def)
  have k': "(100 :: uint) \<noteq> 0 \<and> \<not> active (objs pm_init 0) \<and> msecs_to_jiffies_100 100 \<noteq> 0
      \<and> uint (5 - 3 :: ulong) + uint (msecs_to_jiffies_100 100) < 2 ^ 31"
    by (simp add: m2j_vals pm_init_def ws_zero_def)
  note b = timer_deadline_extension [where ?m2j = msecs_to_jiffies_100 and ?msec = 100
      and ?s = pm_init and ?ws = 0 and ?j0.0 = 3 and ?j1.0 = 3 and ?t0.0 = 0 and ?t1.0 = 0,
      THEN conjunct2, THEN conjunct1, rule_format, OF k, THEN conjunct1]
  note b' = timer_deadline_extension [where ?m2j = msecs_to_jiffies_100 and ?msec = 100
      and ?s = pm_init and ?ws = 0 and ?j = 3 and ?j0.0 = 5 and ?j1.0 = 5 and ?t0.0 = 0
      and ?t1.0 = 0 and ?t2.0 = 0,
      THEN conjunct2, THEN conjunct2, THEN conjunct1, rule_format, OF k', THEN conjunct2]
  have e': "expires_of msecs_to_jiffies_100 100 5 = 15"
    by (simp add: expires_of_def m2j_vals)
  have h: "\<not> active (objs pm_init 0) \<and> msecs_to_jiffies_100 50 \<noteq> 0
      \<and> uint (msecs_to_jiffies_100 50) \<le> uint (msecs_to_jiffies_100 100)
      \<and> uint (msecs_to_jiffies_100 100) < uint (msecs_to_jiffies_100 200)
      \<and> uint (msecs_to_jiffies_100 200) < 2 ^ 31"
    by (simp add: m2j_vals pm_init_def ws_zero_def)
  have g: "(50 :: uint) \<noteq> 0 \<and> active (objs after_100 0)"
    by (simp add: after_100_fields)
  have e: "expires_of msecs_to_jiffies_100 100 3 = 13" "expires_of msecs_to_jiffies_100 200 3 = 23"
    "expires_of msecs_to_jiffies_100 50 8 = 13" "time_after 13 10"
    by (simp_all add: expires_of_def m2j_vals time_after_def)
  note c = timer_deadline_extension [where ?m2j = msecs_to_jiffies_100 and ?s = pm_init
      and ?ws = 0 and ?j = 3 and ?t0.0 = 0 and ?t1.0 = 0 and ?t2.0 = 0 and ?t3.0 = 0
      and ?t4.0 = 0 and ?t5.0 = 0, THEN conjunct2, THEN conjunct2, THEN conjunct2,
      rule_format, OF h]
  note a = timer_deadline_extension [where ?m2j = msecs_to_jiffies_100 and ?msec = 50
      and ?s = after_100 and ?ws = 0 and ?j0.0 = 8 and ?j1.0 = 8 and ?t0.0 = 0 and ?t1.0 = 0,
      THEN conjunct1, rule_format, OF g, THEN conjunct1]
  from a have "timer_expires (objs (ws_pm_wakeup_event msecs_to_jiffies_100 (Some 0) 50 8 0 8 0 after_100) 0)
       = 13"
    by (simp add: e after_100_fields)
  with c b b' show ?thesis by (simp add: e e')
qed


end
